theory Spec2Isabelle
  imports Main
begin

section \<open>Proxy classes for agent interactions (mcp_agent/core/proxies.py)\<close>

text \<open>
  The proxies are thin asynchronous forwarders: everything they do is await a call on
  a collaborator object (another proxy's \<open>generate_str\<close>, an agent's
  \<open>_llm.generate_str\<close>, a router's \<open>route\<close>) and combine the strings that come
  back. The embedding makes these effects explicit:

  \<^item> a collaborator's coroutine is a function of its arguments and of the collaborators'
    private state \<open>'s\<close>, returning either the raised exception (\<open>Inl\<close>) or the
    returned value (\<open>Inr\<close>) together with the new state;
  \<^item> the world a proxy runs in is that state plus \<open>calls\<close>, the list of the calls
    the proxy has awaited so far, oldest first, each with what came back (what a mock
    object would record);
  \<^item> \<open>**kwargs\<close> is a dictionary of keyword arguments, kept as an association list in
    the order the caller gave them; a call without keyword arguments carries \<open>[]\<close>.

  Execution is single-threaded and every await is followed to its end, so a coroutine is
  modelled by the function from the world before the call to the outcome and the world
  after it.
\<close>

subsection \<open>Exceptions, keyword arguments, recorded calls\<close>

datatype error =
    KeyError string            \<comment> \<open>\<open>dict[key]\<close> on a missing key; carries the key\<close>
  | OtherException string      \<comment> \<open>any other exception a collaborator raises\<close>

type_synonym 'v kwargs = "(string \<times> 'v) list"

datatype 'v call =
    GenerateStr string string "'v kwargs" "error + string"
      \<comment> \<open>\<open>generate_str(message, **kwargs)\<close> awaited on the collaborator of that name,
         and the exception or the string that came back\<close>
  | Route string
      \<comment> \<open>\<open>route(message)\<close> awaited on the router workflow\<close>

record ('v, 's) world =
  calls :: "'v call list"
  state :: 's

text \<open>The type of a bound \<open>generate_str\<close> method of a collaborator.\<close>

type_synonym ('v, 's) generate = "string \<Rightarrow> 'v kwargs \<Rightarrow> 's \<Rightarrow> (error + string) \<times> 's"

text \<open>
  \<open>await proxy.generate_str(message, **kwargs)\<close>, for the collaborator registered or
  known under \<open>name\<close>: the call is recorded, the collaborator runs on its own state.
\<close>

definition call_generate_str ::
  "string \<Rightarrow> ('v, 's) generate \<Rightarrow> string \<Rightarrow> 'v kwargs \<Rightarrow> ('v, 's) world
     \<Rightarrow> (error + string) \<times> ('v, 's) world" where
  "call_generate_str name proxy message kwargs w =
     (case proxy message kwargs (state w) of
        (r, s') \<Rightarrow>
          (r, w\<lparr>calls := calls w @ [GenerateStr name message kwargs r], state := s'\<rparr>))"

subsection \<open>ChainProxy\<close>

text \<open>
  The fields of a \<open>ChainProxy\<close> object. \<open>agent_proxies\<close> is the dictionary from
  names to proxies; of a proxy the chain uses nothing but its \<open>generate_str\<close>, so the
  dictionary maps a name to that method. The dictionary is not changed while a chain runs.
\<close>

record ('v, 's) ChainProxy =
  chain_name :: string
  sequence :: "string list"
  agent_proxies :: "string \<rightharpoonup> ('v, 's) generate"
  continue_with_final :: bool
  cumulative :: bool

text \<open>
  The formatted strings of cumulative mode:
  \<^verbatim>\<open>f"<{first_agent}>\n{first_response}\n</{first_agent}>"\<close> and
  \<^verbatim>\<open>f"\n\n<{agent_name}>\n{agent_response}\n</{agent_name}>"\<close>.
\<close>

definition first_block :: "string \<Rightarrow> string \<Rightarrow> string" where
  "first_block first_agent first_response =
     ''<'' @ first_agent @ ''>\<newline>'' @ first_response @ ''\<newline></'' @ first_agent @ ''>''"

definition next_block :: "string \<Rightarrow> string \<Rightarrow> string" where
  "next_block agent_name agent_response =
     ''\<newline>\<newline><'' @ agent_name @ ''>\<newline>'' @ agent_response
       @ ''\<newline></'' @ agent_name @ ''>''"

text \<open>
  The loop of cumulative mode over \<open>self._sequence[1:]\<close>: look the name up, call the
  proxy with the whole transcript and no keyword arguments, append the tagged response.
  A missing name raises \<open>KeyError\<close> before anything is called; an exception of the
  proxy leaves the loop.
\<close>

fun cumulative_loop ::
  "(string \<rightharpoonup> ('v, 's) generate) \<Rightarrow> string list \<Rightarrow> string \<Rightarrow> ('v, 's) world
     \<Rightarrow> (error + string) \<times> ('v, 's) world" where
  "cumulative_loop reg [] cumulative_response w = (Inr cumulative_response, w)"
| "cumulative_loop reg (agent_name # rest) cumulative_response w =
     (case reg agent_name of
        None \<Rightarrow> (Inl (KeyError agent_name), w)
      | Some proxy \<Rightarrow>
          (case call_generate_str agent_name proxy cumulative_response [] w of
             (Inl e, w') \<Rightarrow> (Inl e, w')
           | (Inr agent_response, w') \<Rightarrow>
               cumulative_loop reg rest
                 (cumulative_response @ next_block agent_name agent_response) w'))"

text \<open>
  The loop of sequential mode over \<open>self._sequence[1:]\<close>: the proxy is called with
  the current message and no keyword arguments, and its response becomes the current
  message.
\<close>

fun sequential_loop ::
  "(string \<rightharpoonup> ('v, 's) generate) \<Rightarrow> string list \<Rightarrow> string \<Rightarrow> ('v, 's) world
     \<Rightarrow> (error + string) \<times> ('v, 's) world" where
  "sequential_loop reg [] current_message w = (Inr current_message, w)"
| "sequential_loop reg (agent_name # rest) current_message w =
     (case reg agent_name of
        None \<Rightarrow> (Inl (KeyError agent_name), w)
      | Some proxy \<Rightarrow>
          (case call_generate_str agent_name proxy current_message [] w of
             (Inl e, w') \<Rightarrow> (Inl e, w')
           | (Inr response, w') \<Rightarrow> sequential_loop reg rest response w'))"

text \<open>\<open>ChainProxy.generate_str(self, message, **kwargs)\<close>.\<close>

definition ChainProxy_generate_str ::
  "('v, 's) ChainProxy \<Rightarrow> string \<Rightarrow> 'v kwargs \<Rightarrow> ('v, 's) world
     \<Rightarrow> (error + string) \<times> ('v, 's) world" where
  "ChainProxy_generate_str self message kwargs w =
     (case sequence self of
        [] \<Rightarrow> (Inr message, w)
      | first_agent # rest \<Rightarrow>
          (case agent_proxies self first_agent of
             None \<Rightarrow> (Inl (KeyError first_agent), w)
           | Some first_proxy \<Rightarrow>
               (case call_generate_str first_agent first_proxy message kwargs w of
                  (Inl e, w') \<Rightarrow> (Inl e, w')
                | (Inr first_response, w') \<Rightarrow>
                    if rest = [] then (Inr first_response, w')
                    else if cumulative self then
                      cumulative_loop (agent_proxies self) rest
                        (first_block first_agent first_response) w'
                    else
                      sequential_loop (agent_proxies self) rest first_response w')))"

subsection \<open>RouterProxy\<close>

text \<open>
  What \<open>route\<close> returns is a list of results with the fields \<open>result\<close>,
  \<open>confidence\<close> and \<open>reasoning\<close>. \<open>generate_str\<close> tells three kinds of
  \<open>result\<close> apart with \<open>isinstance\<close>: an \<open>Agent\<close>, of which it uses
  \<open>_llm.generate_str\<close>; a \<open>str\<close>; anything else, of which it uses the text that
  formatting gives. \<open>confidence\<close> and \<open>reasoning\<close> are used as formatted text only.
\<close>

record ('v, 's) Agent =
  agent_name :: string
  llm_generate_str :: "('v, 's) generate"

datatype ('v, 's) route_target =
    AgentResult "('v, 's) Agent"
  | StrResult string
  | OtherResult string

record ('v, 's) RouterResult =
  result :: "('v, 's) route_target"
  confidence :: string
  reasoning :: string

record ('v, 's) RouterProxy =
  router_name :: string
  workflow_route :: "string \<Rightarrow> 's \<Rightarrow> (error + ('v, 's) RouterResult list) \<times> 's"

text \<open>\<open>await self._workflow.route(message)\<close>: recorded, then run on the state.\<close>

definition call_route ::
  "('v, 's) RouterProxy \<Rightarrow> string \<Rightarrow> ('v, 's) world
     \<Rightarrow> (error + ('v, 's) RouterResult list) \<times> ('v, 's) world" where
  "call_route self message w =
     (case workflow_route self message (state w) of
        (r, s') \<Rightarrow> (r, w\<lparr>calls := calls w @ [Route message], state := s'\<rparr>))"

text \<open>\<open>RouterProxy.generate_str(self, message, **kwargs)\<close>.\<close>

definition RouterProxy_generate_str ::
  "('v, 's) RouterProxy \<Rightarrow> string \<Rightarrow> 'v kwargs \<Rightarrow> ('v, 's) world
     \<Rightarrow> (error + string) \<times> ('v, 's) world" where
  "RouterProxy_generate_str self message kwargs w =
     (case call_route self message w of
        (Inl e, w') \<Rightarrow> (Inl e, w')
      | (Inr results, w') \<Rightarrow>
          (case results of
             [] \<Rightarrow> (Inr ''No appropriate route found for the request.'', w')
           | top_result # _ \<Rightarrow>
               (case result top_result of
                  AgentResult agent \<Rightarrow>
                    call_generate_str (agent_name agent) (llm_generate_str agent)
                      message kwargs w'
                | StrResult _ \<Rightarrow>
                    (Inr ''Tool call requested by router - not yet supported'', w')
                | OtherResult repr \<Rightarrow>
                    (Inr (''Routed to: '' @ repr @ '' ('' @ confidence top_result
                            @ ''): '' @ reasoning top_result), w'))))"

section \<open>The calls a chain makes\<close>

text \<open>
  Auxiliary facts about the two loops and about \<open>ChainProxy.generate_str\<close>: how a
  loop over a concatenated list decomposes, and what a run appends to \<open>calls\<close>.
  In the trace lemmas \<open>new\<close> is the list of calls the run has recorded: at most one
  per name, in the order of the names, each one after the first with the message the loop
  carried at that point and without keyword arguments; a call that raised is the last
  one, and its exception is the outcome of the run.
\<close>

lemma call_generate_str_effect:
  "call_generate_str name proxy message kwargs w = (r, w') \<Longrightarrow>
     calls w' = calls w @ [GenerateStr name message kwargs r]"
  by (auto simp: call_generate_str_def split: prod.splits)

lemma sequential_loop_trace:
  "sequential_loop reg ns cur w = (r, w') \<Longrightarrow>
   \<exists>new. calls w' = calls w @ new \<and> length new \<le> length ns
     \<and> (\<forall>i<length new. \<exists>ms res. new ! i = GenerateStr (ns ! i) ms [] res)
     \<and> (new \<noteq> [] \<longrightarrow> (\<exists>res. new ! 0 = GenerateStr (ns ! 0) cur [] res))
     \<and> (\<forall>i. Suc i < length new \<longrightarrow>
           (\<exists>n ms k out res. new ! i = GenerateStr n ms k (Inr out)
               \<and> new ! Suc i = GenerateStr (ns ! Suc i) out [] res))
     \<and> (\<forall>i<length new. \<forall>n ms k e. new ! i = GenerateStr n ms k (Inl e)
            \<longrightarrow> Suc i = length new \<and> r = Inl e)
     \<and> (\<forall>final. r = Inr final \<longrightarrow> length new = length ns
            \<and> (if new = [] then final = cur
                else \<exists>n ms k out. last new = GenerateStr n ms k (Inr out) \<and> final = out))"
proof (induction ns arbitrary: cur w)
  case Nil
  then show ?case by auto
next
  case (Cons a ns)
  show ?case
  proof (cases "reg a")
    case None
    with Cons.prems show ?thesis by auto
  next
    case (Some p)
    obtain x w1 where c: "call_generate_str a p cur [] w = (x, w1)" by force
    note eff = call_generate_str_effect[OF c]
    show ?thesis
    proof (cases x)
      case (Inl e)
      with Cons.prems Some c eff show ?thesis
        by (intro exI[of _ "[GenerateStr a cur [] (Inl e)]"]) auto
    next
      case (Inr out)
      with Cons.prems Some c have "sequential_loop reg ns out w1 = (r, w')" by simp
      from Cons.IH[OF this] obtain new where
        n: "calls w' = calls w1 @ new" "length new \<le> length ns"
         "\<forall>i<length new. \<exists>ms res. new ! i = GenerateStr (ns ! i) ms [] res"
         "new \<noteq> [] \<longrightarrow> (\<exists>res. new ! 0 = GenerateStr (ns ! 0) out [] res)"
         "\<forall>i. Suc i < length new \<longrightarrow>
           (\<exists>n ms k out res. new ! i = GenerateStr n ms k (Inr out)
               \<and> new ! Suc i = GenerateStr (ns ! Suc i) out [] res)"
         "\<forall>i<length new. \<forall>n ms k e. new ! i = GenerateStr n ms k (Inl e)
            \<longrightarrow> Suc i = length new \<and> r = Inl e"
         "\<forall>final. r = Inr final \<longrightarrow> length new = length ns
            \<and> (if new = [] then final = out
                else \<exists>n ms k out. last new = GenerateStr n ms k (Inr out) \<and> final = out)"
        by blast
      let ?new = "GenerateStr a cur [] (Inr out) # new"
      have 1: "calls w' = calls w @ ?new" using n(1) eff Inr by simp
      have 2: "length ?new \<le> length (a # ns)" using n(2) by simp
      have 3: "\<forall>i<length ?new. \<exists>ms res. ?new ! i = GenerateStr ((a # ns) ! i) ms [] res"
        using n(3) by (auto simp: nth_Cons split: nat.splits)
      have 4: "?new \<noteq> [] \<longrightarrow> (\<exists>res. ?new ! 0 = GenerateStr ((a # ns) ! 0) cur [] res)"
        by simp
      have 5: "\<forall>i. Suc i < length ?new \<longrightarrow>
           (\<exists>n ms k out res. ?new ! i = GenerateStr n ms k (Inr out)
               \<and> ?new ! Suc i = GenerateStr ((a # ns) ! Suc i) out [] res)"
      proof (intro allI impI)
        fix i assume "Suc i < length ?new"
        then show "\<exists>n ms k out res. ?new ! i = GenerateStr n ms k (Inr out)
               \<and> ?new ! Suc i = GenerateStr ((a # ns) ! Suc i) out [] res"
          using n(4,5) by (cases i) auto
      qed
      have 6: "\<forall>i<length ?new. \<forall>n ms k e. ?new ! i = GenerateStr n ms k (Inl e)
            \<longrightarrow> Suc i = length ?new \<and> r = Inl e"
        using n(6) by (auto simp: nth_Cons split: nat.splits)
      have 7: "\<forall>final. r = Inr final \<longrightarrow> length ?new = length (a # ns)
            \<and> (if ?new = [] then final = cur
                else \<exists>n ms k out. last ?new = GenerateStr n ms k (Inr out) \<and> final = out)"
        using n(7) by auto
      from 1 2 3 4 5 6 7 show ?thesis by blast
    qed
  qed
qed

lemma cumulative_loop_trace:
  "cumulative_loop reg ns cur w = (r, w') \<Longrightarrow>
   \<exists>new. calls w' = calls w @ new \<and> length new \<le> length ns
     \<and> (\<forall>i<length new. \<exists>ms res. new ! i = GenerateStr (ns ! i) ms [] res)
     \<and> (new \<noteq> [] \<longrightarrow> (\<exists>res. new ! 0 = GenerateStr (ns ! 0) cur [] res))
     \<and> (\<forall>i. Suc i < length new \<longrightarrow>
           (\<exists>n ms k out res. new ! i = GenerateStr n ms k (Inr out)
               \<and> new ! Suc i = GenerateStr (ns ! Suc i) (ms @ next_block n out) [] res))
     \<and> (\<forall>i<length new. \<forall>n ms k e. new ! i = GenerateStr n ms k (Inl e)
            \<longrightarrow> Suc i = length new \<and> r = Inl e)
     \<and> (\<forall>final. r = Inr final \<longrightarrow> length new = length ns
            \<and> (if new = [] then final = cur
                else \<exists>n ms k out. last new = GenerateStr n ms k (Inr out) \<and> final = ms @ next_block n out))"
proof (induction ns arbitrary: cur w)
  case Nil
  then show ?case by auto
next
  case (Cons a ns)
  show ?case
  proof (cases "reg a")
    case None
    with Cons.prems show ?thesis by auto
  next
    case (Some p)
    obtain x w1 where c: "call_generate_str a p cur [] w = (x, w1)" by force
    note eff = call_generate_str_effect[OF c]
    show ?thesis
    proof (cases x)
      case (Inl e)
      with Cons.prems Some c eff show ?thesis
        by (intro exI[of _ "[GenerateStr a cur [] (Inl e)]"]) auto
    next
      case (Inr out)
      with Cons.prems Some c have "cumulative_loop reg ns (cur @ next_block a out) w1 = (r, w')" by simp
      from Cons.IH[OF this] obtain new where
        n: "calls w' = calls w1 @ new" "length new \<le> length ns"
         "\<forall>i<length new. \<exists>ms res. new ! i = GenerateStr (ns ! i) ms [] res"
         "new \<noteq> [] \<longrightarrow> (\<exists>res. new ! 0 = GenerateStr (ns ! 0) (cur @ next_block a out) [] res)"
         "\<forall>i. Suc i < length new \<longrightarrow>
           (\<exists>n ms k out res. new ! i = GenerateStr n ms k (Inr out)
               \<and> new ! Suc i = GenerateStr (ns ! Suc i) (ms @ next_block n out) [] res)"
         "\<forall>i<length new. \<forall>n ms k e. new ! i = GenerateStr n ms k (Inl e)
            \<longrightarrow> Suc i = length new \<and> r = Inl e"
         "\<forall>final. r = Inr final \<longrightarrow> length new = length ns
            \<and> (if new = [] then final = cur @ next_block a out
                else \<exists>n ms k out. last new = GenerateStr n ms k (Inr out) \<and> final = ms @ next_block n out)"
        by blast
      let ?new = "GenerateStr a cur [] (Inr out) # new"
      have 1: "calls w' = calls w @ ?new" using n(1) eff Inr by simp
      have 2: "length ?new \<le> length (a # ns)" using n(2) by simp
      have 3: "\<forall>i<length ?new. \<exists>ms res. ?new ! i = GenerateStr ((a # ns) ! i) ms [] res"
        using n(3) by (auto simp: nth_Cons split: nat.splits)
      have 4: "?new \<noteq> [] \<longrightarrow> (\<exists>res. ?new ! 0 = GenerateStr ((a # ns) ! 0) cur [] res)"
        by simp
      have 5: "\<forall>i. Suc i < length ?new \<longrightarrow>
           (\<exists>n ms k out res. ?new ! i = GenerateStr n ms k (Inr out)
               \<and> ?new ! Suc i = GenerateStr ((a # ns) ! Suc i) (ms @ next_block n out) [] res)"
      proof (intro allI impI)
        fix i assume "Suc i < length ?new"
        then show "\<exists>n ms k out res. ?new ! i = GenerateStr n ms k (Inr out)
               \<and> ?new ! Suc i = GenerateStr ((a # ns) ! Suc i) (ms @ next_block n out) [] res"
          using n(4,5) by (cases i) auto
      qed
      have 6: "\<forall>i<length ?new. \<forall>n ms k e. ?new ! i = GenerateStr n ms k (Inl e)
            \<longrightarrow> Suc i = length ?new \<and> r = Inl e"
        using n(6) by (auto simp: nth_Cons split: nat.splits)
      have 7: "\<forall>final. r = Inr final \<longrightarrow> length ?new = length (a # ns)
            \<and> (if ?new = [] then final = cur
                else \<exists>n ms k out. last ?new = GenerateStr n ms k (Inr out) \<and> final = ms @ next_block n out)"
        using n(7) by auto
      from 1 2 3 4 5 6 7 show ?thesis by blast
    qed
  qed
qed

lemma chain_sequential_trace:
  assumes "\<not> cumulative self"
    and "ChainProxy_generate_str self message kwargs w = (r, w')"
  shows "\<exists>new. calls w' = calls w @ new \<and> length new \<le> length (sequence self)
     \<and> (sequence self \<noteq> [] \<and> agent_proxies self (hd (sequence self)) \<noteq> None \<longrightarrow> new \<noteq> [])
     \<and> (new \<noteq> [] \<longrightarrow> (\<exists>res. new ! 0 = GenerateStr (sequence self ! 0) message kwargs res))
     \<and> (\<forall>i<length new. 0 < i \<longrightarrow>
           (\<exists>ms res. new ! i = GenerateStr (sequence self ! i) ms [] res))
     \<and> (\<forall>i. Suc i < length new \<longrightarrow>
           (\<exists>n ms k out res. new ! i = GenerateStr n ms k (Inr out)
               \<and> new ! Suc i = GenerateStr (sequence self ! Suc i) out [] res))
     \<and> (\<forall>i<length new. \<forall>n ms k e. new ! i = GenerateStr n ms k (Inl e)
            \<longrightarrow> Suc i = length new \<and> r = Inl e)
     \<and> (\<forall>final. r = Inr final \<longrightarrow> length new = length (sequence self)
            \<and> (if new = [] then final = message
                else \<exists>n ms k. last new = GenerateStr n ms k (Inr final)))"
proof (cases "sequence self")
  case Nil
  with assms(2) show ?thesis by (auto simp: ChainProxy_generate_str_def)
next
  case (Cons a rest)
  show ?thesis
  proof (cases "agent_proxies self a")
    case None
    with assms(2) Cons show ?thesis by (auto simp: ChainProxy_generate_str_def)
  next
    case (Some p)
    obtain x w1 where c: "call_generate_str a p message kwargs w = (x, w1)" by force
    note eff = call_generate_str_effect[OF c]
    show ?thesis
    proof (cases x)
      case (Inl e)
      with assms(2) Cons Some c eff show ?thesis
        by (intro exI[of _ "[GenerateStr a message kwargs (Inl e)]"])
           (auto simp: ChainProxy_generate_str_def)
    next
      case (Inr out)
      with assms Cons Some c have "sequential_loop (agent_proxies self) rest out w1 = (r, w')"
        by (cases rest) (auto simp: ChainProxy_generate_str_def)
      from sequential_loop_trace[OF this] obtain new where
        n: "calls w' = calls w1 @ new" "length new \<le> length rest"
         "\<forall>i<length new. \<exists>ms res. new ! i = GenerateStr (rest ! i) ms [] res"
         "new \<noteq> [] \<longrightarrow> (\<exists>res. new ! 0 = GenerateStr (rest ! 0) out [] res)"
         "\<forall>i. Suc i < length new \<longrightarrow>
           (\<exists>n ms k out res. new ! i = GenerateStr n ms k (Inr out)
               \<and> new ! Suc i = GenerateStr (rest ! Suc i) out [] res)"
         "\<forall>i<length new. \<forall>n ms k e. new ! i = GenerateStr n ms k (Inl e)
            \<longrightarrow> Suc i = length new \<and> r = Inl e"
         "\<forall>final. r = Inr final \<longrightarrow> length new = length rest
            \<and> (if new = [] then final = out
                else \<exists>n ms k out. last new = GenerateStr n ms k (Inr out) \<and> final = out)"
        by blast
      let ?new = "GenerateStr a message kwargs (Inr out) # new"
      have 1: "calls w' = calls w @ ?new" using n(1) eff Inr by simp
      have 2: "length ?new \<le> length (a # rest)" using n(2) by simp
      have 3: "\<forall>i<length ?new. 0 < i \<longrightarrow>
                 (\<exists>ms res. ?new ! i = GenerateStr ((a # rest) ! i) ms [] res)"
        using n(3) by (auto simp: nth_Cons split: nat.splits)
      have 4: "\<exists>res. ?new ! 0 = GenerateStr ((a # rest) ! 0) message kwargs res"
        by simp
      have 5: "\<forall>i. Suc i < length ?new \<longrightarrow>
           (\<exists>n ms k out res. ?new ! i = GenerateStr n ms k (Inr out)
               \<and> ?new ! Suc i = GenerateStr ((a # rest) ! Suc i) out [] res)"
      proof (intro allI impI)
        fix i assume "Suc i < length ?new"
        then show "\<exists>n ms k out res. ?new ! i = GenerateStr n ms k (Inr out)
               \<and> ?new ! Suc i = GenerateStr ((a # rest) ! Suc i) out [] res"
          using n(4,5) by (cases i) auto
      qed
      have 6: "\<forall>i<length ?new. \<forall>n ms k e. ?new ! i = GenerateStr n ms k (Inl e)
            \<longrightarrow> Suc i = length ?new \<and> r = Inl e"
        using n(6) by (auto simp: nth_Cons split: nat.splits)
      have 7: "\<forall>final. r = Inr final \<longrightarrow> length ?new = length (a # rest)
            \<and> (if ?new = [] then final = message
                else \<exists>n ms k. last ?new = GenerateStr n ms k (Inr final))"
        using n(7) by auto
      have 8: "?new \<noteq> []" by simp
      from 1 2 3 4 5 6 7 8 show ?thesis unfolding Cons by blast
    qed
  qed
qed

lemma chain_cumulative_trace:
  assumes "cumulative self"
    and "ChainProxy_generate_str self message kwargs w = (r, w')"
  shows "\<exists>new. calls w' = calls w @ new \<and> length new \<le> length (sequence self)
     \<and> (sequence self \<noteq> [] \<and> agent_proxies self (hd (sequence self)) \<noteq> None \<longrightarrow> new \<noteq> [])
     \<and> (new \<noteq> [] \<longrightarrow> (\<exists>res. new ! 0 = GenerateStr (sequence self ! 0) message kwargs res))
     \<and> (\<forall>i<length new. 0 < i \<longrightarrow>
           (\<exists>ms res. new ! i = GenerateStr (sequence self ! i) ms [] res))
     \<and> (1 < length new \<longrightarrow>
           (\<exists>n ms k out res. new ! 0 = GenerateStr n ms k (Inr out)
               \<and> new ! 1 = GenerateStr (sequence self ! 1) (first_block n out) [] res))
     \<and> (\<forall>i. 0 < i \<and> Suc i < length new \<longrightarrow>
           (\<exists>n ms k out res. new ! i = GenerateStr n ms k (Inr out)
               \<and> new ! Suc i = GenerateStr (sequence self ! Suc i) (ms @ next_block n out) [] res))
     \<and> (\<forall>i<length new. \<forall>n ms k e. new ! i = GenerateStr n ms k (Inl e)
            \<longrightarrow> Suc i = length new \<and> r = Inl e)
     \<and> (\<forall>final. r = Inr final \<longrightarrow> length new = length (sequence self)
            \<and> (new = [] \<longrightarrow> final = message)
            \<and> (length new = 1 \<longrightarrow> (\<exists>n ms k. new ! 0 = GenerateStr n ms k (Inr final)))
            \<and> (2 \<le> length new \<longrightarrow>
                 (\<exists>n ms k out. last new = GenerateStr n ms k (Inr out)
                    \<and> final = ms @ next_block n out)))"
proof (cases "sequence self")
  case Nil
  with assms(2) show ?thesis by (auto simp: ChainProxy_generate_str_def)
next
  case (Cons a rest)
  show ?thesis
  proof (cases "agent_proxies self a")
    case None
    with assms(2) Cons show ?thesis by (auto simp: ChainProxy_generate_str_def)
  next
    case (Some p)
    obtain x w1 where c: "call_generate_str a p message kwargs w = (x, w1)" by force
    note eff = call_generate_str_effect[OF c]
    show ?thesis
    proof (cases x)
      case (Inl e)
      with assms(2) Cons Some c eff show ?thesis
        by (intro exI[of _ "[GenerateStr a message kwargs (Inl e)]"])
           (auto simp: ChainProxy_generate_str_def)
    next
      case (Inr out)
      show ?thesis
      proof (cases "rest = []")
        case True
        with Inr assms(2) Cons Some c eff show ?thesis
          by (intro exI[of _ "[GenerateStr a message kwargs (Inr out)]"])
             (auto simp: ChainProxy_generate_str_def)
      next
        case False
        with Inr assms Cons Some c
        have "cumulative_loop (agent_proxies self) rest (first_block a out) w1 = (r, w')"
          by (auto simp: ChainProxy_generate_str_def)
        from cumulative_loop_trace[OF this] obtain new where
          n: "calls w' = calls w1 @ new" "length new \<le> length rest"
           "\<forall>i<length new. \<exists>ms res. new ! i = GenerateStr (rest ! i) ms [] res"
           "new \<noteq> [] \<longrightarrow> (\<exists>res. new ! 0 = GenerateStr (rest ! 0) (first_block a out) [] res)"
           "\<forall>i. Suc i < length new \<longrightarrow>
             (\<exists>n ms k out res. new ! i = GenerateStr n ms k (Inr out)
                 \<and> new ! Suc i = GenerateStr (rest ! Suc i) (ms @ next_block n out) [] res)"
           "\<forall>i<length new. \<forall>n ms k e. new ! i = GenerateStr n ms k (Inl e)
              \<longrightarrow> Suc i = length new \<and> r = Inl e"
           "\<forall>final. r = Inr final \<longrightarrow> length new = length rest
              \<and> (if new = [] then final = first_block a out
                  else \<exists>n ms k out. last new = GenerateStr n ms k (Inr out)
                         \<and> final = ms @ next_block n out)"
          by blast
        let ?new = "GenerateStr a message kwargs (Inr out) # new"
        have 1: "calls w' = calls w @ ?new" using n(1) eff Inr by simp
        have 2: "length ?new \<le> length (a # rest)" using n(2) by simp
        have 3: "\<forall>i<length ?new. 0 < i \<longrightarrow>
                   (\<exists>ms res. ?new ! i = GenerateStr ((a # rest) ! i) ms [] res)"
          using n(3) by (auto simp: nth_Cons split: nat.splits)
        have 4: "\<exists>res. ?new ! 0 = GenerateStr ((a # rest) ! 0) message kwargs res"
          by simp
        have 5: "1 < length ?new \<longrightarrow>
           (\<exists>n ms k out res. ?new ! 0 = GenerateStr n ms k (Inr out)
               \<and> ?new ! 1 = GenerateStr ((a # rest) ! 1) (first_block n out) [] res)"
          using n(4) by auto
        have 6: "\<forall>i. 0 < i \<and> Suc i < length ?new \<longrightarrow>
             (\<exists>n ms k out res. ?new ! i = GenerateStr n ms k (Inr out)
                 \<and> ?new ! Suc i
                      = GenerateStr ((a # rest) ! Suc i) (ms @ next_block n out) [] res)"
        proof (intro allI impI)
          fix i assume "0 < i \<and> Suc i < length ?new"
          then show "\<exists>n ms k out res. ?new ! i = GenerateStr n ms k (Inr out)
                 \<and> ?new ! Suc i
                      = GenerateStr ((a # rest) ! Suc i) (ms @ next_block n out) [] res"
            using n(5) by (cases i) auto
        qed
        have 7: "\<forall>i<length ?new. \<forall>n ms k e. ?new ! i = GenerateStr n ms k (Inl e)
              \<longrightarrow> Suc i = length ?new \<and> r = Inl e"
          using n(6) by (auto simp: nth_Cons split: nat.splits)
        have 8: "\<forall>final. r = Inr final \<longrightarrow> length ?new = length (a # rest)
            \<and> (?new = [] \<longrightarrow> final = message)
            \<and> (length ?new = 1 \<longrightarrow> (\<exists>n ms k. ?new ! 0 = GenerateStr n ms k (Inr final)))
            \<and> (2 \<le> length ?new \<longrightarrow>
                 (\<exists>n ms k out. last ?new = GenerateStr n ms k (Inr out)
                    \<and> final = ms @ next_block n out))"
          using n(7) False by auto
        have 9: "?new \<noteq> []" by simp
        from 1 2 3 4 5 6 7 8 9 show ?thesis unfolding Cons by blast
      qed
    qed
  qed
qed

lemma cumulative_loop_append:
  "cumulative_loop reg (xs @ ys) t w =
     (case cumulative_loop reg xs t w of
        (Inl e, w') \<Rightarrow> (Inl e, w')
      | (Inr t', w') \<Rightarrow> cumulative_loop reg ys t' w')"
  by (induction xs arbitrary: t w) (auto split: option.splits prod.splits sum.splits)

lemma sequential_loop_append:
  "sequential_loop reg (xs @ ys) cur w =
     (case sequential_loop reg xs cur w of
        (Inl e, w') \<Rightarrow> (Inl e, w')
      | (Inr r, w') \<Rightarrow> sequential_loop reg ys r w')"
  by (induction xs arbitrary: cur w) (auto split: option.splits prod.splits sum.splits)

lemma chain_sequential_append:
  assumes "\<not> cumulative self" and "pre \<noteq> []"
  shows "ChainProxy_generate_str (self\<lparr>sequence := pre @ post\<rparr>) message kwargs w =
     (case ChainProxy_generate_str (self\<lparr>sequence := pre\<rparr>) message kwargs w of
        (Inl e, w') \<Rightarrow> (Inl e, w')
      | (Inr r, w') \<Rightarrow> sequential_loop (agent_proxies self) post r w')"
proof -
  from assms(2) obtain a pre' where pre: "pre = a # pre'" by (cases pre) auto
  show ?thesis
    using assms(1) unfolding pre ChainProxy_generate_str_def
    by (auto simp: sequential_loop_append split: option.splits prod.splits sum.splits)
qed

lemma chain_cumulative_append:
  assumes "cumulative self" and "2 \<le> length pre"
  shows "ChainProxy_generate_str (self\<lparr>sequence := pre @ post\<rparr>) message kwargs w =
     (case ChainProxy_generate_str (self\<lparr>sequence := pre\<rparr>) message kwargs w of
        (Inl e, w') \<Rightarrow> (Inl e, w')
      | (Inr t, w') \<Rightarrow> cumulative_loop (agent_proxies self) post t w')"
proof -
  from assms(2) obtain a b pre' where pre: "pre = a # b # pre'"
    by (cases pre; cases "tl pre") auto
  show ?thesis
    using assms(1) unfolding pre ChainProxy_generate_str_def
    by (simp add: cumulative_loop_append[of _ "b # pre'" post, simplified] split: option.splits prod.splits sum.splits)
qed






lemma chain_missing_after_prefix:
  assumes "agent_proxies self n = None"
    and "ChainProxy_generate_str (self\<lparr>sequence := pre\<rparr>) message kwargs w = (Inr out, w1)"
  shows "ChainProxy_generate_str (self\<lparr>sequence := pre @ n # post\<rparr>) message kwargs w
           = (Inl (KeyError n), w1)"
proof (cases pre)
  case Nil
  with assms show ?thesis by (simp add: ChainProxy_generate_str_def)
next
  case (Cons a pre')
  show ?thesis
  proof (cases "cumulative self")
    case False
    have "pre \<noteq> []" using Cons by simp
    from chain_sequential_append[OF False this, of "n # post" message kwargs w] assms
    show ?thesis by simp
  next
    case True
    show ?thesis
    proof (cases pre')
      case Nil
      with Cons assms True show ?thesis
        by (auto simp: ChainProxy_generate_str_def split: option.splits prod.splits sum.splits)
    next
      case (Cons b pre'')
      with \<open>pre = a # pre'\<close> have "2 \<le> length pre" by simp
      from chain_cumulative_append[OF True this, of "n # post" message kwargs w] assms
      show ?thesis by simp
    qed
  qed
qed

lemma chain_error_after_prefix:
  assumes "ChainProxy_generate_str (self\<lparr>sequence := pre\<rparr>) message kwargs w = (Inl e, w1)"
  shows "ChainProxy_generate_str (self\<lparr>sequence := pre @ post\<rparr>) message kwargs w
           = (Inl e, w1)"
proof (cases pre)
  case Nil
  with assms show ?thesis by (simp add: ChainProxy_generate_str_def)
next
  case (Cons a pre')
  show ?thesis
  proof (cases "cumulative self")
    case False
    have "pre \<noteq> []" using Cons by simp
    from chain_sequential_append[OF False this, of post message kwargs w] assms
    show ?thesis by simp
  next
    case True
    show ?thesis
    proof (cases pre')
      case Nil
      with Cons assms True show ?thesis
        by (auto simp: ChainProxy_generate_str_def split: option.splits prod.splits sum.splits)
    next
      case (Cons b pre'')
      with \<open>pre = a # pre'\<close> have "2 \<le> length pre" by simp
      from chain_cumulative_append[OF True this, of post message kwargs w] assms
      show ?thesis by simp
    qed
  qed
qed

lemma chain_sequential_dataflow:
  assumes "\<not> cumulative self" and "2 \<le> length (sequence self)"
    and "ChainProxy_generate_str self message kwargs w = (r, w')"
  shows "\<exists>new. calls w' = calls w @ new \<and> length new \<le> length (sequence self)
     \<and> (\<forall>i. Suc i < length new \<longrightarrow>
           (\<exists>ms k out res. new ! i = GenerateStr (sequence self ! i) ms k (Inr out)
               \<and> new ! Suc i = GenerateStr (sequence self ! Suc i) out [] res))
     \<and> (\<forall>final. r = Inr final \<longrightarrow> length new = length (sequence self)
            \<and> (\<exists>ms. last new = GenerateStr (last (sequence self)) ms [] (Inr final)))"
proof -
  from chain_sequential_trace[OF assms(1,3)] obtain new where
    n: "calls w' = calls w @ new"
       "new \<noteq> [] \<longrightarrow> (\<exists>res. new ! 0 = GenerateStr (sequence self ! 0) message kwargs res)"
       "\<forall>i<length new. 0 < i \<longrightarrow>
           (\<exists>ms res. new ! i = GenerateStr (sequence self ! i) ms [] res)"
       "\<forall>i. Suc i < length new \<longrightarrow>
           (\<exists>n ms k out res. new ! i = GenerateStr n ms k (Inr out)
               \<and> new ! Suc i = GenerateStr (sequence self ! Suc i) out [] res)"
       "\<forall>final. r = Inr final \<longrightarrow> length new = length (sequence self)
            \<and> (if new = [] then final = message
                else \<exists>n ms k. last new = GenerateStr n ms k (Inr final))"
      and bound: "length new \<le> length (sequence self)"
    by (elim exE conjE) (rule that)
  have callee: "\<exists>ms k res. new ! i = GenerateStr (sequence self ! i) ms k res"
    if "i < length new" for i
    using that n(2,3) by (cases i) auto
  have adj: "\<exists>ms k out res. new ! i = GenerateStr (sequence self ! i) ms k (Inr out)
               \<and> new ! Suc i = GenerateStr (sequence self ! Suc i) out [] res"
    if "Suc i < length new" for i
  proof -
    from n(4) that obtain n' ms k out res where
      a: "new ! i = GenerateStr n' ms k (Inr out)"
         "new ! Suc i = GenerateStr (sequence self ! Suc i) out [] res" by blast
    from callee[of i] that a(1) have "n' = sequence self ! i" by auto
    with a show ?thesis by blast
  qed
  have fin: "length new = length (sequence self)
            \<and> (\<exists>ms. last new = GenerateStr (last (sequence self)) ms [] (Inr final))"
    if "r = Inr final" for final
  proof -
    from n(5) that have len: "length new = length (sequence self)" by blast
    with assms(2) have ne: "new \<noteq> []" "sequence self \<noteq> []" by auto
    with n(5) that obtain n' ms k where l: "last new = GenerateStr n' ms k (Inr final)"
      by auto
    have idx: "0 < length new - 1" "length new - 1 < length new" using len assms(2) by auto
    from n(3) idx obtain ms' res' where
      "new ! (length new - 1) = GenerateStr (sequence self ! (length new - 1)) ms' [] res'"
      by blast
    with l ne len show ?thesis by (auto simp: last_conv_nth)
  qed
  from n(1) bound adj fin show ?thesis by blast
qed

lemma sequential_loop_raises:
  "sequential_loop reg ns cur w = (Inl e, w') \<Longrightarrow>
     (\<exists>n\<in>set ns. reg n = None)
     \<or> (length (calls w) < length (calls w')
         \<and> (\<exists>n ms k. last (calls w') = GenerateStr n ms k (Inl e)))"
proof (induction ns arbitrary: cur w)
  case Nil
  then show ?case by simp
next
  case (Cons a ns)
  show ?case
  proof (cases "reg a")
    case None
    then show ?thesis by simp
  next
    case (Some p)
    obtain x w1 where c: "call_generate_str a p cur [] w = (x, w1)" by force
    note eff = call_generate_str_effect[OF c]
    show ?thesis
    proof (cases x)
      case (Inl e')
      with Cons.prems Some c have "e' = e" "w1 = w'" by simp_all
      with eff Inl show ?thesis by simp
    next
      case (Inr out)
      with Cons.prems Some c have "sequential_loop reg ns out w1 = (Inl e, w')" by simp
      from Cons.IH[OF this] eff show ?thesis by auto
    qed
  qed
qed

lemma chain_sequential_raises:
  assumes "\<not> cumulative self"
    and "ChainProxy_generate_str self message kwargs w = (Inl e, w')"
  shows "(\<exists>n\<in>set (sequence self). agent_proxies self n = None)
     \<or> (length (calls w) < length (calls w')
         \<and> (\<exists>n ms k. last (calls w') = GenerateStr n ms k (Inl e)))"
proof (cases "sequence self")
  case Nil
  with assms(2) show ?thesis by (simp add: ChainProxy_generate_str_def)
next
  case (Cons a rest)
  show ?thesis
  proof (cases "agent_proxies self a")
    case None
    with Cons show ?thesis by simp
  next
    case (Some p)
    obtain x w1 where c: "call_generate_str a p message kwargs w = (x, w1)" by force
    note eff = call_generate_str_effect[OF c]
    show ?thesis
    proof (cases x)
      case (Inl e')
      with assms(2) Cons Some c have "e' = e" "w1 = w'"
        by (simp_all add: ChainProxy_generate_str_def)
      with eff Inl show ?thesis by simp
    next
      case (Inr out)
      with assms Cons Some c
      have "sequential_loop (agent_proxies self) rest out w1 = (Inl e, w')"
        by (cases rest) (auto simp: ChainProxy_generate_str_def)
      from sequential_loop_raises[OF this] eff Cons show ?thesis by auto
    qed
  qed
qed

lemma chain_sequential_three_steps:
  assumes "\<not> cumulative self" and "sequence self = [A, B, C]"
    and "agent_proxies self A = Some proxy_A" and "agent_proxies self B = Some proxy_B"
    and "agent_proxies self C = Some proxy_C"
    and "proxy_A message kwargs (state w) = (Inr out_A, s1)"
    and "proxy_B out_A [] s1 = (Inr out_B, s2)"
    and "proxy_C out_B [] s2 = (Inr out_C, s3)"
  shows "ChainProxy_generate_str self message kwargs w =
           (Inr out_C,
            w\<lparr>calls := calls w @
                  [GenerateStr A message kwargs (Inr out_A),
                   GenerateStr B out_A [] (Inr out_B),
                   GenerateStr C out_B [] (Inr out_C)],
              state := s3\<rparr>)"
  using assms by (simp add: ChainProxy_generate_str_def call_generate_str_def)

lemma chain_sequential_last_step:
  assumes "\<not> cumulative self" and "sequence self = pre @ [step_name]" and "pre \<noteq> []"
    and "ChainProxy_generate_str (self\<lparr>sequence := pre\<rparr>) message kwargs w = (Inr previous, w1)"
    and "agent_proxies self step_name = Some proxy"
    and "proxy previous [] (state w1) = (reply, s')"
  shows "ChainProxy_generate_str self message kwargs w =
           (reply,
            w1\<lparr>calls := calls w1 @ [GenerateStr step_name previous [] reply], state := s'\<rparr>)"
proof -
  have self: "self\<lparr>sequence := pre @ [step_name]\<rparr> = self" using assms(2) by simp
  have "ChainProxy_generate_str self message kwargs w
          = sequential_loop (agent_proxies self) [step_name] previous w1"
    using chain_sequential_append[OF assms(1,3), of "[step_name]" message kwargs w] assms(4)
    unfolding self by simp
  also have "\<dots> = (reply,
            w1\<lparr>calls := calls w1 @ [GenerateStr step_name previous [] reply], state := s'\<rparr>)"
    using assms(5,6) by (cases reply) (simp_all add: call_generate_str_def)
  finally show ?thesis .
qed

lemma chain_sequential_progress:
  assumes "\<not> cumulative self"
    and "ChainProxy_generate_str self message kwargs w = (r, w')"
    and "calls w' = calls w @ new"
    and "\<forall>n\<in>set (sequence self). agent_proxies self n \<noteq> None"
    and "\<forall>i<length new. \<forall>n ms k e. new ! i \<noteq> GenerateStr n ms k (Inl e)"
  shows "\<exists>final. r = Inr final"
proof (cases r)
  case (Inr final)
  then show ?thesis by blast
next
  case (Inl e)
  with assms(2) have "ChainProxy_generate_str self message kwargs w = (Inl e, w')" by simp
  from chain_sequential_raises[OF assms(1) this] assms(4)
  obtain n ms k where len: "length (calls w) < length (calls w')"
    and l: "last (calls w') = GenerateStr n ms k (Inl e)" by blast
  from len assms(3) have ne: "new \<noteq> []" by auto
  with l assms(3) have "last new = GenerateStr n ms k (Inl e)" by simp
  with ne have "new ! (length new - 1) = GenerateStr n ms k (Inl e)"
    by (simp add: last_conv_nth)
  moreover from ne have "length new - 1 < length new" by simp
  ultimately show ?thesis using assms(5) by blast
qed

section \<open>Properties of ChainProxy\<close>



text \<open>
  C2. Sequential mode, two or more entries.
  For the sequence \<open>[A, B, C]\<close> whose three proxies return: \<open>A\<close> is called with
  the message and the keyword arguments, \<open>B\<close> with exactly what \<open>A\<close> returned,
  \<open>C\<close> with exactly what \<open>B\<close> returned, both without keyword arguments, and the
  chain returns what \<open>C\<close> returned.
  For any length: if the chain cut off before its last entry returns \<open>previous\<close>, the
  chain calls the last entry with exactly \<open>previous\<close> and no keyword arguments, and its
  outcome is the outcome of that call.
  For any run, with \<open>new\<close> the calls the run recorded: whenever a call is followed by
  another one, the earlier call returned a string and the later call, to the next name of
  the sequence, received exactly that string as its message, with no keyword arguments;
  if the chain returns a string, every entry has been called once and the string is what
  the call to the last entry returned; and the chain does return a string whenever every
  name of the sequence is in the dictionary and no recorded call raised.
\<close>

theorem chain_sequential_pipeline:
  assumes "\<not> cumulative self" and "2 \<le> length (sequence self)"
  shows
    "(sequence self = [A, B, C]
        \<and> agent_proxies self A = Some proxy_A \<and> agent_proxies self B = Some proxy_B
        \<and> agent_proxies self C = Some proxy_C
        \<and> proxy_A message kwargs (state w) = (Inr out_A, s1)
        \<and> proxy_B out_A [] s1 = (Inr out_B, s2)
        \<and> proxy_C out_B [] s2 = (Inr out_C, s3)
      \<longrightarrow> ChainProxy_generate_str self message kwargs w =
            (Inr out_C,
             w\<lparr>calls := calls w @
                   [GenerateStr A message kwargs (Inr out_A),
                    GenerateStr B out_A [] (Inr out_B),
                    GenerateStr C out_B [] (Inr out_C)],
               state := s3\<rparr>))
   \<and> (sequence self = pre @ [step_name] \<and> pre \<noteq> []
        \<and> ChainProxy_generate_str (self\<lparr>sequence := pre\<rparr>) message kwargs w
             = (Inr previous, w1)
        \<and> agent_proxies self step_name = Some proxy
        \<and> proxy previous [] (state w1) = (reply, s')
      \<longrightarrow> ChainProxy_generate_str self message kwargs w =
            (reply,
             w1\<lparr>calls := calls w1 @ [GenerateStr step_name previous [] reply],
                state := s'\<rparr>))
   \<and> (ChainProxy_generate_str self message kwargs w = (r, w')
      \<longrightarrow> (\<exists>new. calls w' = calls w @ new \<and> length new \<le> length (sequence self)
            \<and> (\<forall>i. Suc i < length new \<longrightarrow>
                 (\<exists>ms k out res. new ! i = GenerateStr (sequence self ! i) ms k (Inr out)
                    \<and> new ! Suc i = GenerateStr (sequence self ! Suc i) out [] res))
            \<and> (\<forall>final. r = Inr final \<longrightarrow> length new = length (sequence self)
                 \<and> (\<exists>ms. last new = GenerateStr (last (sequence self)) ms [] (Inr final)))
            \<and> ((\<forall>n\<in>set (sequence self). agent_proxies self n \<noteq> None)
                 \<and> (\<forall>i<length new. \<forall>n ms k e. new ! i \<noteq> GenerateStr n ms k (Inl e))
                \<longrightarrow> (\<exists>final. r = Inr final))))"
proof (intro conjI impI)
  assume h: "sequence self = [A, B, C]
        \<and> agent_proxies self A = Some proxy_A \<and> agent_proxies self B = Some proxy_B
        \<and> agent_proxies self C = Some proxy_C
        \<and> proxy_A message kwargs (state w) = (Inr out_A, s1)
        \<and> proxy_B out_A [] s1 = (Inr out_B, s2)
        \<and> proxy_C out_B [] s2 = (Inr out_C, s3)"
  then have hs: "sequence self = [A, B, C]" "agent_proxies self A = Some proxy_A"
    "agent_proxies self B = Some proxy_B" "agent_proxies self C = Some proxy_C"
    "proxy_A message kwargs (state w) = (Inr out_A, s1)"
    "proxy_B out_A [] s1 = (Inr out_B, s2)" "proxy_C out_B [] s2 = (Inr out_C, s3)"
    by blast+
  from chain_sequential_three_steps[OF assms(1) hs]
  show "ChainProxy_generate_str self message kwargs w =
            (Inr out_C,
             w\<lparr>calls := calls w @
                   [GenerateStr A message kwargs (Inr out_A),
                    GenerateStr B out_A [] (Inr out_B),
                    GenerateStr C out_B [] (Inr out_C)],
               state := s3\<rparr>)" .
next
  assume h: "sequence self = pre @ [step_name] \<and> pre \<noteq> []
        \<and> ChainProxy_generate_str (self\<lparr>sequence := pre\<rparr>) message kwargs w
             = (Inr previous, w1)
        \<and> agent_proxies self step_name = Some proxy
        \<and> proxy previous [] (state w1) = (reply, s')"
  then have hs: "sequence self = pre @ [step_name]" "pre \<noteq> []"
    "ChainProxy_generate_str (self\<lparr>sequence := pre\<rparr>) message kwargs w = (Inr previous, w1)"
    "agent_proxies self step_name = Some proxy" "proxy previous [] (state w1) = (reply, s')"
    by blast+
  from chain_sequential_last_step[OF assms(1) hs]
  show "ChainProxy_generate_str self message kwargs w =
            (reply,
             w1\<lparr>calls := calls w1 @ [GenerateStr step_name previous [] reply],
                state := s'\<rparr>)" .
next
  assume run: "ChainProxy_generate_str self message kwargs w = (r, w')"
  from chain_sequential_dataflow[OF assms run] obtain new where
    n: "calls w' = calls w @ new" "length new \<le> length (sequence self)"
       "\<forall>i. Suc i < length new \<longrightarrow>
           (\<exists>ms k out res. new ! i = GenerateStr (sequence self ! i) ms k (Inr out)
               \<and> new ! Suc i = GenerateStr (sequence self ! Suc i) out [] res)"
       "\<forall>final. r = Inr final \<longrightarrow> length new = length (sequence self)
            \<and> (\<exists>ms. last new = GenerateStr (last (sequence self)) ms [] (Inr final))"
    by (elim exE conjE) (rule that)
  have p: "(\<forall>n\<in>set (sequence self). agent_proxies self n \<noteq> None)
                 \<and> (\<forall>i<length new. \<forall>n ms k e. new ! i \<noteq> GenerateStr n ms k (Inl e))
                \<longrightarrow> (\<exists>final. r = Inr final)"
    using chain_sequential_progress[OF assms(1) run n(1)] by blast
  show "\<exists>new. calls w' = calls w @ new \<and> length new \<le> length (sequence self)
            \<and> (\<forall>i. Suc i < length new \<longrightarrow>
                 (\<exists>ms k out res. new ! i = GenerateStr (sequence self ! i) ms k (Inr out)
                    \<and> new ! Suc i = GenerateStr (sequence self ! Suc i) out [] res))
            \<and> (\<forall>final. r = Inr final \<longrightarrow> length new = length (sequence self)
                 \<and> (\<exists>ms. last new = GenerateStr (last (sequence self)) ms [] (Inr final)))
            \<and> ((\<forall>n\<in>set (sequence self). agent_proxies self n \<noteq> None)
                 \<and> (\<forall>i<length new. \<forall>n ms k e. new ! i \<noteq> GenerateStr n ms k (Inl e))
                \<longrightarrow> (\<exists>final. r = Inr final))"
    by (rule exI[of _ new]) (use n p in blast)
qed

text \<open>
  A sequential chain of three proxies, each appending its own mark to the message it
  receives.
\<close>

theorem chain_sequential_pipeline_witness:
  "let self = \<lparr>chain_name = ''pipeline'', sequence = [''A'', ''B'', ''C''],
                agent_proxies =
                  [''A'' \<mapsto> (\<lambda>message kwargs s. (Inr (message @ ''-a''), Suc s)),
                   ''B'' \<mapsto> (\<lambda>message kwargs s. (Inr (message @ ''-b''), Suc s)),
                   ''C'' \<mapsto> (\<lambda>message kwargs s. (Inr (message @ ''-c''), Suc s))],
                continue_with_final = True, cumulative = False\<rparr>;
       w = \<lparr>calls = [], state = 0 :: nat\<rparr>
   in cumulative self = False \<and> 2 \<le> length (sequence self)
      \<and> sequence self = [''A'', ''B''] @ [''C'']
      \<and> ChainProxy_generate_str (self\<lparr>sequence := [''A'', ''B'']\<rparr>) ''m''
           [(''model'', ''m1'')] w =
          (Inr ''m-a-b'',
           \<lparr>calls = [GenerateStr ''A'' ''m'' [(''model'', ''m1'')] (Inr ''m-a''),
                     GenerateStr ''B'' ''m-a'' [] (Inr ''m-a-b'')],
            state = 2\<rparr>)
      \<and> ChainProxy_generate_str self ''m'' [(''model'', ''m1'')] w =
          (Inr ''m-a-b-c'',
           \<lparr>calls = [GenerateStr ''A'' ''m'' [(''model'', ''m1'')] (Inr ''m-a''),
                     GenerateStr ''B'' ''m-a'' [] (Inr ''m-a-b''),
                     GenerateStr ''C'' ''m-a-b'' [] (Inr ''m-a-b-c'')],
            state = 3\<rparr>)"
proof -
  let ?pa = "(\<lambda>message kwargs s. (Inr (message @ ''-a''), Suc s)) :: (string, nat) generate"
  let ?pb = "(\<lambda>message kwargs s. (Inr (message @ ''-b''), Suc s)) :: (string, nat) generate"
  let ?pc = "(\<lambda>message kwargs s. (Inr (message @ ''-c''), Suc s)) :: (string, nat) generate"
  let ?self = "\<lparr>chain_name = ''pipeline'', sequence = [''A'', ''B'', ''C''],
                agent_proxies = [''A'' \<mapsto> ?pa, ''B'' \<mapsto> ?pb, ''C'' \<mapsto> ?pc],
                continue_with_final = True, cumulative = False\<rparr>"
  let ?kw = "[(''model'', ''m1'')]"
  let ?w = "\<lparr>calls = [], state = 0 :: nat\<rparr> :: (string, nat) world"
  let ?w2 = "\<lparr>calls = [GenerateStr ''A'' ''m'' ?kw (Inr ''m-a''),
                     GenerateStr ''B'' ''m-a'' [] (Inr ''m-a-b'')],
            state = 2 :: nat\<rparr> :: (string, nat) world"
  let ?w3 = "\<lparr>calls = [GenerateStr ''A'' ''m'' ?kw (Inr ''m-a''),
                     GenerateStr ''B'' ''m-a'' [] (Inr ''m-a-b''),
                     GenerateStr ''C'' ''m-a-b'' [] (Inr ''m-a-b-c'')],
            state = 3 :: nat\<rparr> :: (string, nat) world"
  have h1: "\<not> cumulative ?self" by simp
  have h2: "2 \<le> length (sequence ?self)" by simp
  have three: "sequence ?self = [''A'', ''B'', ''C'']
        \<and> agent_proxies ?self ''A'' = Some ?pa \<and> agent_proxies ?self ''B'' = Some ?pb
        \<and> agent_proxies ?self ''C'' = Some ?pc
        \<and> ?pa ''m'' ?kw (state ?w) = (Inr ''m-a'', 1)
        \<and> ?pb ''m-a'' [] 1 = (Inr ''m-a-b'', 2)
        \<and> ?pc ''m-a-b'' [] 2 = (Inr ''m-a-b-c'', 3)"
    by simp
  have prefix: "ChainProxy_generate_str (?self\<lparr>sequence := [''A'', ''B'']\<rparr>) ''m'' ?kw ?w
                  = (Inr ''m-a-b'', ?w2)"
    by (simp add: ChainProxy_generate_str_def call_generate_str_def)
  have last_step: "sequence ?self = [''A'', ''B''] @ [''C''] \<and> [''A'', ''B''] \<noteq> []
        \<and> ChainProxy_generate_str (?self\<lparr>sequence := [''A'', ''B'']\<rparr>) ''m'' ?kw ?w
             = (Inr ''m-a-b'', ?w2)
        \<and> agent_proxies ?self ''C'' = Some ?pc
        \<and> ?pc ''m-a-b'' [] (state ?w2) = (Inr ''m-a-b-c'', 3)"
    using prefix by simp
  note t = chain_sequential_pipeline[OF h1 h2, where A = "''A''" and B = "''B''"
      and C = "''C''" and proxy_A = ?pa and proxy_B = ?pb and proxy_C = ?pc
      and message = "''m''" and kwargs = ?kw and w = ?w
      and out_A = "''m-a''" and out_B = "''m-a-b''" and out_C = "''m-a-b-c''"
      and ?s1.0 = 1 and ?s2.0 = 2 and ?s3.0 = 3
      and pre = "[''A'', ''B'']" and step_name = "''C''" and previous = "''m-a-b''"
      and ?w1.0 = ?w2 and proxy = ?pc and reply = "Inr ''m-a-b-c''" and s' = 3
      and r = "Inr ''m-a-b-c''" and w' = ?w3]
  from t[THEN conjunct1, THEN mp, OF three]
  have run: "ChainProxy_generate_str ?self ''m'' ?kw ?w = (Inr ''m-a-b-c'', ?w3)"
    by simp
  from t[THEN conjunct2, THEN conjunct1, THEN mp, OF last_step]
  have run': "ChainProxy_generate_str ?self ''m'' ?kw ?w = (Inr ''m-a-b-c'', ?w3)"
    by simp
  from t[THEN conjunct2, THEN conjunct2, THEN mp, OF run]
  have "\<exists>new. calls ?w3 = calls ?w @ new" by blast
  with h1 h2 prefix run run' show ?thesis by (simp add: Let_def)
qed

text \<open>
  C3. In either mode, with \<open>new\<close> the calls a run recorded: if the first name is in
  the dictionary, the first call is to it, with the message and the keyword arguments of
  the call to the chain; every later call carries no keyword arguments.
\<close>

theorem chain_options_first_step_only:
  assumes "ChainProxy_generate_str self message kwargs w = (r, w')"
  shows "\<exists>new. calls w' = calls w @ new \<and> length new \<le> length (sequence self)
     \<and> (sequence self \<noteq> [] \<and> agent_proxies self (hd (sequence self)) \<noteq> None \<longrightarrow>
           (\<exists>res. new \<noteq> [] \<and> new ! 0 = GenerateStr (hd (sequence self)) message kwargs res))
     \<and> (\<forall>i<length new. 0 < i \<longrightarrow>
           (\<exists>ms res. new ! i = GenerateStr (sequence self ! i) ms [] res))"
proof -
  have "\<exists>new. calls w' = calls w @ new \<and> length new \<le> length (sequence self)
     \<and> (sequence self \<noteq> [] \<and> agent_proxies self (hd (sequence self)) \<noteq> None \<longrightarrow> new \<noteq> [])
     \<and> (new \<noteq> [] \<longrightarrow> (\<exists>res. new ! 0 = GenerateStr (sequence self ! 0) message kwargs res))
     \<and> (\<forall>i<length new. 0 < i \<longrightarrow>
           (\<exists>ms res. new ! i = GenerateStr (sequence self ! i) ms [] res))"
  proof (cases "cumulative self")
    case True
    from chain_cumulative_trace[OF True assms] show ?thesis by blast
  next
    case False
    from chain_sequential_trace[OF False assms] show ?thesis by blast
  qed
  then obtain new where
    n: "calls w' = calls w @ new"
       "sequence self \<noteq> [] \<and> agent_proxies self (hd (sequence self)) \<noteq> None \<longrightarrow> new \<noteq> []"
       "new \<noteq> [] \<longrightarrow> (\<exists>res. new ! 0 = GenerateStr (sequence self ! 0) message kwargs res)"
       "\<forall>i<length new. 0 < i \<longrightarrow>
           (\<exists>ms res. new ! i = GenerateStr (sequence self ! i) ms [] res)"
      and bound: "length new \<le> length (sequence self)"
    by (elim exE conjE) (rule that)
  have "\<exists>res. new \<noteq> [] \<and> new ! 0 = GenerateStr (hd (sequence self)) message kwargs res"
    if "sequence self \<noteq> [] \<and> agent_proxies self (hd (sequence self)) \<noteq> None"
  proof -
    from that have hd: "hd (sequence self) = sequence self ! 0" by (simp add: hd_conv_nth)
    from that n(2) have "new \<noteq> []" by blast
    with n(3) show ?thesis unfolding hd by blast
  qed
  with n(1,4) bound show ?thesis by blast
qed

text \<open>
  A sequential chain of two proxies called with one keyword argument.
\<close>

theorem chain_options_first_step_only_witness:
  "let self = \<lparr>chain_name = ''pipeline'', sequence = [''A'', ''B''],
                agent_proxies =
                  [''A'' \<mapsto> (\<lambda>message kwargs s. (Inr (message @ ''-a''), Suc s)),
                   ''B'' \<mapsto> (\<lambda>message kwargs s. (Inr (message @ ''-b''), Suc s))],
                continue_with_final = True, cumulative = False\<rparr>;
       w = \<lparr>calls = [], state = 0 :: nat\<rparr>
   in sequence self \<noteq> []
      \<and> ChainProxy_generate_str self ''m'' [(''model'', ''m1'')] w =
          (Inr ''m-a-b'',
           \<lparr>calls = [GenerateStr ''A'' ''m'' [(''model'', ''m1'')] (Inr ''m-a''),
                     GenerateStr ''B'' ''m-a'' [] (Inr ''m-a-b'')],
            state = 2\<rparr>)"
proof -
  let ?self = "\<lparr>chain_name = ''pipeline'', sequence = [''A'', ''B''],
                agent_proxies =
                  [''A'' \<mapsto> (\<lambda>message kwargs s. (Inr (message @ ''-a''), Suc s)),
                   ''B'' \<mapsto> (\<lambda>message kwargs s. (Inr (message @ ''-b''), Suc s))],
                continue_with_final = True, cumulative = False\<rparr>
              :: (string, nat) ChainProxy"
  let ?w = "\<lparr>calls = [], state = 0 :: nat\<rparr> :: (string, nat) world"
  let ?w' = "\<lparr>calls = [GenerateStr ''A'' ''m'' [(''model'', ''m1'')] (Inr ''m-a''),
                     GenerateStr ''B'' ''m-a'' [] (Inr ''m-a-b'')],
            state = 2 :: nat\<rparr> :: (string, nat) world"
  have h1: "ChainProxy_generate_str ?self ''m'' [(''model'', ''m1'')] ?w = (Inr ''m-a-b'', ?w')"
    by (simp add: ChainProxy_generate_str_def call_generate_str_def)
  have h2: "sequence ?self \<noteq> [] \<and> agent_proxies ?self (hd (sequence ?self)) \<noteq> None"
    by simp
  from chain_options_first_step_only[OF h1] obtain new where
    n: "calls ?w' = calls ?w @ new"
       "sequence ?self \<noteq> [] \<and> agent_proxies ?self (hd (sequence ?self)) \<noteq> None \<longrightarrow>
           (\<exists>res. new \<noteq> [] \<and> new ! 0 = GenerateStr (hd (sequence ?self)) ''m''
               [(''model'', ''m1'')] res)"
    by (elim exE conjE) (rule that)
  from n(2) h2 have "new \<noteq> []" by blast
  with h1 h2 show ?thesis by (simp add: Let_def)
qed

text \<open>
  C4. In either mode, with \<open>new\<close> the calls a run recorded: the call number
  \<open>i\<close> is to the entry number \<open>i\<close> of the sequence, and if it raised \<open>e\<close>
  then it is the last call recorded, so no later entry was called, and the outcome of the
  chain is that same exception \<open>e\<close>, not a string.
\<close>

theorem chain_error_aborts:
  assumes "ChainProxy_generate_str self message kwargs w = (r, w')"
  shows "\<exists>new. calls w' = calls w @ new \<and> length new \<le> length (sequence self)
     \<and> (\<forall>i<length new. \<exists>ms k res. new ! i = GenerateStr (sequence self ! i) ms k res
            \<and> (\<forall>e. res = Inl e \<longrightarrow> Suc i = length new \<and> r = Inl e))"
proof -
  have "\<exists>new. calls w' = calls w @ new \<and> length new \<le> length (sequence self)
     \<and> (new \<noteq> [] \<longrightarrow> (\<exists>res. new ! 0 = GenerateStr (sequence self ! 0) message kwargs res))
     \<and> (\<forall>i<length new. 0 < i \<longrightarrow>
           (\<exists>ms res. new ! i = GenerateStr (sequence self ! i) ms [] res))
     \<and> (\<forall>i<length new. \<forall>n ms k e. new ! i = GenerateStr n ms k (Inl e)
            \<longrightarrow> Suc i = length new \<and> r = Inl e)"
  proof (cases "cumulative self")
    case True
    from chain_cumulative_trace[OF True assms] show ?thesis by blast
  next
    case False
    from chain_sequential_trace[OF False assms] show ?thesis by blast
  qed
  then obtain new where
    n: "calls w' = calls w @ new" "length new \<le> length (sequence self)"
       "new \<noteq> [] \<longrightarrow> (\<exists>res. new ! 0 = GenerateStr (sequence self ! 0) message kwargs res)"
       "\<forall>i<length new. 0 < i \<longrightarrow>
           (\<exists>ms res. new ! i = GenerateStr (sequence self ! i) ms [] res)"
       "\<forall>i<length new. \<forall>n ms k e. new ! i = GenerateStr n ms k (Inl e)
            \<longrightarrow> Suc i = length new \<and> r = Inl e"
    by blast
  have "\<exists>ms k res. new ! i = GenerateStr (sequence self ! i) ms k res
            \<and> (\<forall>e. res = Inl e \<longrightarrow> Suc i = length new \<and> r = Inl e)"
    if "i < length new" for i
  proof -
    from that n(3,4) obtain ms k res where
      c: "new ! i = GenerateStr (sequence self ! i) ms k res"
      by (cases i) auto
    with n(5) that have "\<forall>e. res = Inl e \<longrightarrow> Suc i = length new \<and> r = Inl e" by blast
    with c show ?thesis by blast
  qed
  with n(1,2) show ?thesis by blast
qed

text \<open>
  A sequential chain of three proxies whose second one raises.
\<close>

theorem chain_error_aborts_witness:
  "let self = \<lparr>chain_name = ''pipeline'', sequence = [''A'', ''B'', ''C''],
                agent_proxies =
                  [''A'' \<mapsto> (\<lambda>message kwargs s. (Inr (message @ ''-a''), Suc s)),
                   ''B'' \<mapsto> (\<lambda>message kwargs s. (Inl (OtherException ''boom''), Suc s)),
                   ''C'' \<mapsto> (\<lambda>message kwargs s. (Inr (message @ ''-c''), Suc s))],
                continue_with_final = True, cumulative = False\<rparr>;
       w = \<lparr>calls = [], state = 0 :: nat\<rparr>
   in ChainProxy_generate_str self ''m'' [(''model'', ''m1'')] w =
          (Inl (OtherException ''boom''),
           \<lparr>calls = [GenerateStr ''A'' ''m'' [(''model'', ''m1'')] (Inr ''m-a''),
                     GenerateStr ''B'' ''m-a'' [] (Inl (OtherException ''boom''))],
            state = 2\<rparr>)"
proof -
  let ?self = "\<lparr>chain_name = ''pipeline'', sequence = [''A'', ''B'', ''C''],
                agent_proxies =
                  [''A'' \<mapsto> (\<lambda>message kwargs s. (Inr (message @ ''-a''), Suc s)),
                   ''B'' \<mapsto> (\<lambda>message kwargs s. (Inl (OtherException ''boom''), Suc s)),
                   ''C'' \<mapsto> (\<lambda>message kwargs s. (Inr (message @ ''-c''), Suc s))],
                continue_with_final = True, cumulative = False\<rparr>
              :: (string, nat) ChainProxy"
  let ?w = "\<lparr>calls = [], state = 0 :: nat\<rparr> :: (string, nat) world"
  let ?w' = "\<lparr>calls = [GenerateStr ''A'' ''m'' [(''model'', ''m1'')] (Inr ''m-a''),
                     GenerateStr ''B'' ''m-a'' [] (Inl (OtherException ''boom''))],
            state = 2 :: nat\<rparr> :: (string, nat) world"
  have h1: "ChainProxy_generate_str ?self ''m'' [(''model'', ''m1'')] ?w
              = (Inl (OtherException ''boom''), ?w')"
    by (simp add: ChainProxy_generate_str_def call_generate_str_def)
  from chain_error_aborts[OF h1]
  have "\<exists>new. calls ?w' = calls ?w @ new \<and> length new \<le> length (sequence ?self)" by blast
  with h1 show ?thesis by (simp add: Let_def)
qed

text \<open>
  C8. A chain whose sequence is the single name \<open>name\<close>, registered with
  \<open>proxy\<close>: \<open>generate_str\<close> of the chain is the same function as the call of
  \<open>proxy.generate_str\<close>; it returns what the proxy returns for the same message and
  keyword arguments, and leaves the state the proxy leaves.
\<close>

theorem chain_single_entry_delegates:
  assumes "sequence self = [name]" and "agent_proxies self name = Some proxy"
  shows "ChainProxy_generate_str self = call_generate_str name proxy
       \<and> fst (ChainProxy_generate_str self message kwargs w) = fst (proxy message kwargs (state w))
       \<and> state (snd (ChainProxy_generate_str self message kwargs w))
            = snd (proxy message kwargs (state w))"
proof -
  have "ChainProxy_generate_str self m k v = call_generate_str name proxy m k v" for m k v
    using assms by (auto simp: ChainProxy_generate_str_def split: prod.splits sum.splits)
  then have eq: "ChainProxy_generate_str self = call_generate_str name proxy"
    by (intro ext)
  show ?thesis
    unfolding eq by (simp add: call_generate_str_def split: prod.splits)
qed

text \<open>
  A chain of one proxy, and the direct call of that proxy.
\<close>

theorem chain_single_entry_delegates_witness:
  "let self = \<lparr>chain_name = ''solo'', sequence = [''A''],
                agent_proxies =
                  [''A'' \<mapsto> (\<lambda>message kwargs s. (Inr (message @ ''-a''), Suc s))],
                continue_with_final = True, cumulative = True\<rparr>;
       w = \<lparr>calls = [], state = 0 :: nat\<rparr>
   in sequence self = [''A'']
      \<and> ChainProxy_generate_str self ''m'' [(''model'', ''m1'')] w =
          call_generate_str ''A'' (\<lambda>message kwargs s. (Inr (message @ ''-a''), Suc s))
            ''m'' [(''model'', ''m1'')] w
      \<and> ChainProxy_generate_str self ''m'' [(''model'', ''m1'')] w =
          (Inr ''m-a'',
           \<lparr>calls = [GenerateStr ''A'' ''m'' [(''model'', ''m1'')] (Inr ''m-a'')],
            state = 1\<rparr>)"
proof -
  let ?pa = "(\<lambda>message kwargs s. (Inr (message @ ''-a''), Suc s)) :: (string, nat) generate"
  let ?self = "\<lparr>chain_name = ''solo'', sequence = [''A''],
                agent_proxies = [''A'' \<mapsto> ?pa],
                continue_with_final = True, cumulative = True\<rparr>"
  let ?w = "\<lparr>calls = [], state = 0 :: nat\<rparr> :: (string, nat) world"
  have h1: "sequence ?self = [''A'']" by simp
  have h2: "agent_proxies ?self ''A'' = Some ?pa" by simp
  from chain_single_entry_delegates[OF h1 h2]
  have eq: "ChainProxy_generate_str ?self = call_generate_str ''A'' ?pa" by blast
  have "call_generate_str ''A'' ?pa ''m'' [(''model'', ''m1'')] ?w =
          (Inr ''m-a'',
           \<lparr>calls = [GenerateStr ''A'' ''m'' [(''model'', ''m1'')] (Inr ''m-a'')],
            state = 1\<rparr>)"
    by (simp add: call_generate_str_def)
  then show ?thesis unfolding Let_def eq by simp
qed

text \<open>
  C9. A chain with an empty sequence returns the message unchanged, whatever the message,
  the keyword arguments and the mode, and leaves the world as it was: no call is recorded
  and no collaborator state changes.
\<close>

theorem chain_empty_sequence_identity:
  "ChainProxy_generate_str (self\<lparr>sequence := []\<rparr>) message kwargs w = (Inr message, w)"
  by (simp add: ChainProxy_generate_str_def)

text \<open>
  A cumulative chain with no entries, although its dictionary holds a proxy.
\<close>

theorem chain_empty_sequence_identity_witness:
  "ChainProxy_generate_str
     \<lparr>chain_name = ''empty'', sequence = [],
      agent_proxies = [''A'' \<mapsto> (\<lambda>message kwargs s. (Inr (message @ ''-a''), Suc s))],
      continue_with_final = True, cumulative = True\<rparr>
     ''m'' [(''model'', ''m1'')] \<lparr>calls = [], state = 0 :: nat\<rparr>
   = (Inr ''m'', \<lparr>calls = [], state = 0\<rparr>)"
  using chain_empty_sequence_identity
    [of "\<lparr>chain_name = ''empty'', sequence = [],
          agent_proxies = [''A'' \<mapsto> (\<lambda>message kwargs s. (Inr (message @ ''-a''), Suc s))],
          continue_with_final = True, cumulative = True\<rparr>"
        "''m''" "[(''model'', ''m1'')]" "\<lparr>calls = [], state = 0 :: nat\<rparr>"]
  by simp

text \<open>
  C10. A name \<open>n\<close> of the sequence that is not in the dictionary: the chain never
  returns a string; and if the entries before \<open>n\<close> run to their end, leaving the
  world \<open>w1\<close>, the chain raises \<open>KeyError n\<close> in that very world: the earlier
  entries have been called, nothing has been called for \<open>n\<close> or after it.
\<close>

theorem chain_missing_name_key_error:
  assumes "sequence self = pre @ n # post" and "agent_proxies self n = None"
  shows "(\<exists>e w'. ChainProxy_generate_str self message kwargs w = (Inl e, w'))
       \<and> (ChainProxy_generate_str (self\<lparr>sequence := pre\<rparr>) message kwargs w = (Inr out, w1)
            \<longrightarrow> ChainProxy_generate_str self message kwargs w = (Inl (KeyError n), w1))"
proof -
  have self: "self\<lparr>sequence := pre @ n # post\<rparr> = self"
    using assms(1) by simp
  have part2: "ChainProxy_generate_str self message kwargs w = (Inl (KeyError n), v)"
    if "ChainProxy_generate_str (self\<lparr>sequence := pre\<rparr>) message kwargs w = (Inr x, v)"
    for x v
    using chain_missing_after_prefix[OF assms(2) that, of post] unfolding self .
  have part1: "\<exists>e w'. ChainProxy_generate_str self message kwargs w = (Inl e, w')"
  proof (cases "ChainProxy_generate_str (self\<lparr>sequence := pre\<rparr>) message kwargs w")
    case (Pair x v)
    show ?thesis
    proof (cases x)
      case (Inl e)
      with Pair
      have "ChainProxy_generate_str (self\<lparr>sequence := pre\<rparr>) message kwargs w = (Inl e, v)"
        by simp
      from chain_error_after_prefix[OF this, of "n # post"]
      show ?thesis unfolding self by blast
    next
      case (Inr y)
      with Pair part2 show ?thesis by blast
    qed
  qed
  from part1 part2 show ?thesis by blast
qed

text \<open>
  A sequential chain whose second name is not in the dictionary.
\<close>

theorem chain_missing_name_key_error_witness:
  "let self = \<lparr>chain_name = ''pipeline'', sequence = [''A'', ''X'', ''B''],
                agent_proxies =
                  [''A'' \<mapsto> (\<lambda>message kwargs s. (Inr (message @ ''-a''), Suc s)),
                   ''B'' \<mapsto> (\<lambda>message kwargs s. (Inr (message @ ''-b''), Suc s))],
                continue_with_final = True, cumulative = False\<rparr>;
       w = \<lparr>calls = [], state = 0 :: nat\<rparr>
   in sequence self = [''A''] @ ''X'' # [''B''] \<and> agent_proxies self ''X'' = None
      \<and> ChainProxy_generate_str (self\<lparr>sequence := [''A'']\<rparr>) ''m'' [(''model'', ''m1'')] w =
          (Inr ''m-a'',
           \<lparr>calls = [GenerateStr ''A'' ''m'' [(''model'', ''m1'')] (Inr ''m-a'')], state = 1\<rparr>)
      \<and> ChainProxy_generate_str self ''m'' [(''model'', ''m1'')] w =
          (Inl (KeyError ''X''),
           \<lparr>calls = [GenerateStr ''A'' ''m'' [(''model'', ''m1'')] (Inr ''m-a'')], state = 1\<rparr>)"
proof -
  let ?self = "\<lparr>chain_name = ''pipeline'', sequence = [''A'', ''X'', ''B''],
                agent_proxies =
                  [''A'' \<mapsto> (\<lambda>message kwargs s. (Inr (message @ ''-a''), Suc s)),
                   ''B'' \<mapsto> (\<lambda>message kwargs s. (Inr (message @ ''-b''), Suc s))],
                continue_with_final = True, cumulative = False\<rparr>
              :: (string, nat) ChainProxy"
  let ?w = "\<lparr>calls = [], state = 0 :: nat\<rparr> :: (string, nat) world"
  let ?w1 = "\<lparr>calls = [GenerateStr ''A'' ''m'' [(''model'', ''m1'')] (Inr ''m-a'')],
              state = 1 :: nat\<rparr> :: (string, nat) world"
  have h1: "sequence ?self = [''A''] @ ''X'' # [''B'']" by simp
  have h2: "agent_proxies ?self ''X'' = None" by simp
  have h3: "ChainProxy_generate_str (?self\<lparr>sequence := [''A'']\<rparr>) ''m'' [(''model'', ''m1'')] ?w
              = (Inr ''m-a'', ?w1)"
    by (simp add: ChainProxy_generate_str_def call_generate_str_def)
  note t = chain_missing_name_key_error[OF h1 h2, of "''m''" "[(''model'', ''m1'')]" ?w
             "''m-a''" ?w1]
  from t[THEN conjunct2, THEN mp, OF h3]
  have "ChainProxy_generate_str ?self ''m'' [(''model'', ''m1'')] ?w = (Inl (KeyError ''X''), ?w1)" .
  with h1 h2 h3 show ?thesis unfolding Let_def by simp
qed

section \<open>Properties of RouterProxy\<close>

text \<open>
  C5. When \<open>route\<close> returns an empty list, \<open>generate_str\<close> returns the string
  \<open>No appropriate route found for the request.\<close> as a normal result, and the only
  call recorded is the one to \<open>route\<close>.
\<close>

theorem router_no_route:
  assumes "workflow_route self message (state w) = (Inr [], s')"
  shows "RouterProxy_generate_str self message kwargs w =
           (Inr ''No appropriate route found for the request.'',
            w\<lparr>calls := calls w @ [Route message], state := s'\<rparr>)"
  using assms by (simp add: RouterProxy_generate_str_def call_route_def)

text \<open>
  A router whose \<open>route\<close> finds nothing.
\<close>

theorem router_no_route_witness:
  "let self = \<lparr>router_name = ''router'',
                workflow_route = (\<lambda>message s. (Inr [], Suc s))\<rparr>;
       w = \<lparr>calls = [], state = 0 :: nat\<rparr>
   in workflow_route self ''m'' (state w) = (Inr [], 1)
      \<and> RouterProxy_generate_str self ''m'' [(''model'', ''m1'')] w =
          (Inr ''No appropriate route found for the request.'',
           \<lparr>calls = [Route ''m''], state = 1\<rparr>)"
proof -
  let ?self = "\<lparr>router_name = ''router'',
                workflow_route = (\<lambda>message s. (Inr [], Suc s))\<rparr>
               :: (string, nat) RouterProxy"
  let ?w = "\<lparr>calls = [], state = 0 :: nat\<rparr> :: (string, nat) world"
  have h: "workflow_route ?self ''m'' (state ?w) = (Inr [], 1)" by simp
  from router_no_route[OF h, of "[(''model'', ''m1'')]"] h
  show ?thesis unfolding Let_def by simp
qed

text \<open>
  C6. When the \<open>result\<close> of the first element of what \<open>route\<close> returns is a
  string, \<open>generate_str\<close> returns the string
  \<open>Tool call requested by router - not yet supported\<close>, and the only call recorded is
  the one to \<open>route\<close>.
\<close>

theorem router_server_route_not_supported:
  assumes "workflow_route self message (state w) = (Inr (top_result # others), s')"
    and "result top_result = StrResult destination"
  shows "RouterProxy_generate_str self message kwargs w =
           (Inr ''Tool call requested by router - not yet supported'',
            w\<lparr>calls := calls w @ [Route message], state := s'\<rparr>)"
  using assms by (simp add: RouterProxy_generate_str_def call_route_def)

text \<open>
  A router whose \<open>route\<close> puts a server name first.
\<close>

theorem router_server_route_not_supported_witness:
  "let self = \<lparr>router_name = ''router'',
                workflow_route = (\<lambda>message s.
                  (Inr [\<lparr>result = StrResult ''fetch'', confidence = ''high'',
                         reasoning = ''needs the web''\<rparr>,
                        \<lparr>result = OtherResult ''f'', confidence = ''low'',
                         reasoning = ''fallback''\<rparr>], Suc s))\<rparr>;
       w = \<lparr>calls = [], state = 0 :: nat\<rparr>
   in result \<lparr>result = StrResult ''fetch'', confidence = ''high'',
               reasoning = ''needs the web''\<rparr> = StrResult ''fetch''
      \<and> RouterProxy_generate_str self ''m'' [(''model'', ''m1'')] w =
          (Inr ''Tool call requested by router - not yet supported'',
           \<lparr>calls = [Route ''m''], state = 1\<rparr>)"
proof -
  let ?top = "\<lparr>result = StrResult ''fetch'', confidence = ''high'',
                reasoning = ''needs the web''\<rparr> :: (string, nat) RouterResult"
  let ?others = "[\<lparr>result = OtherResult ''f'', confidence = ''low'',
                    reasoning = ''fallback''\<rparr>] :: (string, nat) RouterResult list"
  let ?self = "\<lparr>router_name = ''router'',
                workflow_route = (\<lambda>message s. (Inr (?top # ?others), Suc s))\<rparr>
               :: (string, nat) RouterProxy"
  let ?w = "\<lparr>calls = [], state = 0 :: nat\<rparr> :: (string, nat) world"
  have h1: "workflow_route ?self ''m'' (state ?w) = (Inr (?top # ?others), 1)" by simp
  have h2: "result ?top = StrResult ''fetch''" by simp
  from router_server_route_not_supported[OF h1 h2, of "[(''model'', ''m1'')]"] h2
  show ?thesis unfolding Let_def by simp
qed

text \<open>
  C7. When the \<open>result\<close> of the first element of what \<open>route\<close> returns is an
  agent, \<open>generate_str\<close> calls \<open>_llm.generate_str\<close> of that agent once, with the
  message and the keyword arguments it was given, and its outcome is the outcome of that
  call; the other elements of the list play no part.
\<close>

theorem router_agent_route_delegates:
  assumes "workflow_route self message (state w) = (Inr (top_result # others), s')"
    and "result top_result = AgentResult agent"
    and "llm_generate_str agent message kwargs s' = (reply, s'')"
  shows "RouterProxy_generate_str self message kwargs w =
           (reply,
            w\<lparr>calls := calls w @
                  [Route message, GenerateStr (agent_name agent) message kwargs reply],
              state := s''\<rparr>)"
  using assms
  by (simp add: RouterProxy_generate_str_def call_route_def call_generate_str_def)

text \<open>
  A router whose \<open>route\<close> puts an agent first and a server name second.
\<close>

theorem router_agent_route_delegates_witness:
  "let writer = \<lparr>agent_name = ''writer'',
                  llm_generate_str = (\<lambda>message kwargs s. (Inr (''re: '' @ message), Suc s))\<rparr>;
       self = \<lparr>router_name = ''router'',
                workflow_route = (\<lambda>message s.
                  (Inr [\<lparr>result = AgentResult writer, confidence = ''high'',
                         reasoning = ''a text''\<rparr>,
                        \<lparr>result = StrResult ''fetch'', confidence = ''low'',
                         reasoning = ''fallback''\<rparr>], Suc s))\<rparr>;
       w = \<lparr>calls = [], state = 0 :: nat\<rparr>
   in llm_generate_str writer ''m'' [(''model'', ''m1'')] 1 = (Inr ''re: m'', 2)
      \<and> RouterProxy_generate_str self ''m'' [(''model'', ''m1'')] w =
          (Inr ''re: m'',
           \<lparr>calls = [Route ''m'',
                     GenerateStr ''writer'' ''m'' [(''model'', ''m1'')] (Inr ''re: m'')],
            state = 2\<rparr>)"
proof -
  let ?writer = "\<lparr>agent_name = ''writer'',
                  llm_generate_str = (\<lambda>message kwargs s. (Inr (''re: '' @ message), Suc s))\<rparr>
                 :: (string, nat) Agent"
  let ?top = "\<lparr>result = AgentResult ?writer, confidence = ''high'',
                reasoning = ''a text''\<rparr> :: (string, nat) RouterResult"
  let ?others = "[\<lparr>result = StrResult ''fetch'', confidence = ''low'',
                    reasoning = ''fallback''\<rparr>] :: (string, nat) RouterResult list"
  let ?self = "\<lparr>router_name = ''router'',
                workflow_route = (\<lambda>message s. (Inr (?top # ?others), Suc s))\<rparr>
               :: (string, nat) RouterProxy"
  let ?w = "\<lparr>calls = [], state = 0 :: nat\<rparr> :: (string, nat) world"
  have h1: "workflow_route ?self ''m'' (state ?w) = (Inr (?top # ?others), 1)" by simp
  have h2: "result ?top = AgentResult ?writer" by simp
  have h3: "llm_generate_str ?writer ''m'' [(''model'', ''m1'')] 1 = (Inr ''re: m'', 2)"
    by simp
  from router_agent_route_delegates[OF h1 h2 h3] h3
  show ?thesis unfolding Let_def by simp
qed

end
